theory Spec2Isabelle
  imports Complex_Main
begin

section \<open>Circuit breaker (13\_api\_gateway.py, class CircuitBreaker)\<close>

text \<open>
  Timestamps (\<open>datetime.utcnow()\<close>, \<open>time.time()\<close>) are modelled as real numbers of
  seconds; every clock reading the source makes is a parameter of the function that makes it.
\<close>

datatype CircuitState = CLOSED | OPEN | HALF_OPEN

record CircuitBreaker =
  failure_threshold :: int
  timeout_seconds :: int
  failure_count :: int
  last_failure_time :: "real option"
  state :: CircuitState

definition CircuitBreaker_init :: "int \<Rightarrow> int \<Rightarrow> CircuitBreaker" where
  "CircuitBreaker_init ft ts =
     \<lparr>failure_threshold = ft, timeout_seconds = ts, failure_count = 0,
      last_failure_time = None, state = CLOSED\<rparr>"

definition record_success :: "CircuitBreaker \<Rightarrow> CircuitBreaker" where
  "record_success cb =
     (let cb1 = cb\<lparr>failure_count := 0\<rparr>
      in if state cb1 = HALF_OPEN then cb1\<lparr>state := CLOSED\<rparr> else cb1)"

definition record_failure :: "real \<Rightarrow> CircuitBreaker \<Rightarrow> CircuitBreaker" where
  "record_failure now cb =
     (let cb1 = cb\<lparr>failure_count := failure_count cb + 1, last_failure_time := Some now\<rparr>
      in if failure_count cb1 \<ge> failure_threshold cb1 then cb1\<lparr>state := OPEN\<rparr> else cb1)"

text \<open>
  \<open>can_attempt\<close> returns its answer together with the breaker, whose state it may change.
  A \<open>datetime\<close> object is always truthy, so \<open>if self.last_failure_time\<close> is the test
  for \<open>None\<close>.
\<close>

definition can_attempt :: "real \<Rightarrow> CircuitBreaker \<Rightarrow> bool \<times> CircuitBreaker" where
  "can_attempt now cb =
     (if state cb = CLOSED then (True, cb)
      else if state cb = OPEN then
        (case last_failure_time cb of
           Some t \<Rightarrow>
             (let elapsed = now - t
              in if elapsed \<ge> real_of_int (timeout_seconds cb)
                 then (True, cb\<lparr>state := HALF_OPEN\<rparr>)
                 else (False, cb))
         | None \<Rightarrow> (False, cb))
      else (True, cb))"

text \<open>Consecutive \<open>record_failure()\<close> calls, one per clock reading, oldest first.\<close>

definition record_failures :: "real list \<Rightarrow> CircuitBreaker \<Rightarrow> CircuitBreaker" where
  "record_failures ts cb = fold record_failure ts cb"


section \<open>Service registry (13\_api\_gateway.py, classes ServiceConfig and ServiceRegistry)\<close>

definition FAILURE_THRESHOLD :: int where
  "FAILURE_THRESHOLD = 5"

definition TIMEOUT_SECONDS :: int where
  "TIMEOUT_SECONDS = 30"

text \<open>
  Exceptions are values. \<open>HTTPException\<close> carries its status code and detail text;
  \<open>Raised\<close> is any exception of the HTTP client that \<open>proxy_request\<close> does not
  catch, with its text.
\<close>

datatype error =
    IndexError
  | ZeroDivisionError
  | ValueError string
  | JSONDecodeError
  | HTTPException int string
  | Raised string

text \<open>
  The three dictionaries of the registry are maps; the round-robin index is a natural
  number (it is only ever \<open>0\<close> or a remainder modulo a list length).
\<close>

record ServiceRegistry =
  services :: "string \<rightharpoonup> string list"
  current_index :: "string \<rightharpoonup> nat"
  circuit_breakers :: "string \<rightharpoonup> CircuitBreaker"

definition ServiceRegistry_init :: ServiceRegistry where
  "ServiceRegistry_init =
     \<lparr>services = [''users'' \<mapsto> [''http://localhost:8001''],
                  ''products'' \<mapsto> [''http://localhost:8002''],
                  ''orders'' \<mapsto> [''http://localhost:8003'']],
      current_index = Map.empty,
      circuit_breakers = Map.empty\<rparr>"

definition register_service :: "string \<Rightarrow> string \<Rightarrow> ServiceRegistry \<Rightarrow> ServiceRegistry" where
  "register_service name url reg =
     (let reg1 = (if services reg name = None
                  then reg\<lparr>services := (services reg)(name \<mapsto> [])\<rparr> else reg)
      in case services reg1 name of
           None \<Rightarrow> reg1
         | Some urls \<Rightarrow>
             if url \<notin> set urls
             then reg1\<lparr>services := (services reg1)(name \<mapsto> urls @ [url])\<rparr>
             else reg1)"

text \<open>
  \<open>get_service_url\<close> returns the selected URL (\<open>None\<close> as in the source) and the
  registry with the advanced index. \<open>urls[i]\<close> with \<open>i\<close> past the end raises
  \<open>IndexError\<close>.
\<close>

definition get_service_url ::
  "string \<Rightarrow> ServiceRegistry \<Rightarrow> (error + string option) \<times> ServiceRegistry" where
  "get_service_url name reg =
     (case services reg name of
        None \<Rightarrow> (Inr None, reg)
      | Some urls \<Rightarrow>
          if urls = [] then (Inr None, reg)
          else
            (let reg1 = (if current_index reg name = None
                         then reg\<lparr>current_index := (current_index reg)(name \<mapsto> 0)\<rparr>
                         else reg);
                 i = (case current_index reg1 name of Some j \<Rightarrow> j | None \<Rightarrow> 0)
             in if i < length urls
                then (Inr (Some (urls ! i)),
                      reg1\<lparr>current_index :=
                             (current_index reg1)(name \<mapsto> (i + 1) mod length urls)\<rparr>)
                else (Inl IndexError, reg1)))"

definition get_circuit_breaker ::
  "string \<Rightarrow> ServiceRegistry \<Rightarrow> CircuitBreaker \<times> ServiceRegistry" where
  "get_circuit_breaker service_name reg =
     (case circuit_breakers reg service_name of
        Some cb \<Rightarrow> (cb, reg)
      | None \<Rightarrow>
          (let cb = CircuitBreaker_init FAILURE_THRESHOLD TIMEOUT_SECONDS
           in (cb, reg\<lparr>circuit_breakers := (circuit_breakers reg)(service_name \<mapsto> cb)\<rparr>)))"

text \<open>Repeated \<open>get_service_url(name)\<close> calls: the results in call order, and the registry.\<close>

fun get_service_urls ::
  "nat \<Rightarrow> string \<Rightarrow> ServiceRegistry \<Rightarrow> (error + string option) list \<times> ServiceRegistry" where
  "get_service_urls 0 name reg = ([], reg)"
| "get_service_urls (Suc n) name reg =
     (let (r, reg1) = get_service_url name reg;
          (rs, reg2) = get_service_urls n name reg1
      in (r # rs, reg2))"

text \<open>
  What every registry built by the constructor, \<open>register_service\<close> and
  \<open>get_service_url\<close> satisfies: a stored index is inside its URL list, and no URL is
  listed twice.
\<close>

definition registry_ok :: "ServiceRegistry \<Rightarrow> bool" where
  "registry_ok reg \<longleftrightarrow>
     (\<forall>name i. current_index reg name = Some i \<longrightarrow>
        (\<exists>urls. services reg name = Some urls \<and> i < length urls)) \<and>
     (\<forall>name urls. services reg name = Some urls \<longrightarrow> distinct urls)"

section \<open>Token bucket (13\_rate\_limiting.py, class TokenBucketLimiter)\<close>

text \<open>
  \<open>time.time()\<close> readings and token counts are real numbers, and the arithmetic on
  them is exact; the source computes in doubles, which hold the integer capacity exactly
  up to \<open>2^53\<close>. A bucket is the dictionary \<open>{"tokens", "last_update"}\<close>; it is
  mutated in place, so every function writes the changed bucket back under its key.
\<close>

record bucket =
  tokens :: real
  last_update :: real

record TokenBucketLimiter =
  capacity :: int
  refill_rate :: real
  buckets :: "string \<rightharpoonup> bucket"

definition TokenBucketLimiter_init :: "int \<Rightarrow> real \<Rightarrow> TokenBucketLimiter" where
  "TokenBucketLimiter_init cap rate = \<lparr>capacity = cap, refill_rate = rate, buckets = Map.empty\<rparr>"

text \<open>\<open>t\<close> is the clock reading \<open>_get_bucket\<close> makes when it creates the bucket.\<close>

definition get_bucket :: "real \<Rightarrow> string \<Rightarrow> TokenBucketLimiter \<Rightarrow> bucket \<times> TokenBucketLimiter" where
  "get_bucket t key limiter =
     (case buckets limiter key of
        Some b \<Rightarrow> (b, limiter)
      | None \<Rightarrow>
          (let b = \<lparr>tokens = real_of_int (capacity limiter), last_update = t\<rparr>
           in (b, limiter\<lparr>buckets := (buckets limiter)(key \<mapsto> b)\<rparr>)))"

definition refill_tokens :: "real \<Rightarrow> TokenBucketLimiter \<Rightarrow> bucket \<Rightarrow> bucket" where
  "refill_tokens now limiter b =
     (let elapsed = now - last_update b;
          tokens_to_add = elapsed * refill_rate limiter
      in b\<lparr>tokens := min (real_of_int (capacity limiter)) (tokens b + tokens_to_add),
           last_update := now\<rparr>)"

text \<open>
  \<open>allow_request\<close> reads the clock in \<open>_get_bucket\<close> (\<open>t_create\<close>, used only for a
  new key) and then in \<open>_refill_tokens\<close> (\<open>now\<close>).
\<close>

definition TokenBucketLimiter_allow_request ::
  "real \<Rightarrow> real \<Rightarrow> string \<Rightarrow> int \<Rightarrow> TokenBucketLimiter \<Rightarrow> bool \<times> TokenBucketLimiter" where
  "TokenBucketLimiter_allow_request t_create now key tokens_needed limiter =
     (let (b, limiter1) = get_bucket t_create key limiter;
          b1 = refill_tokens now limiter1 b
      in if tokens b1 \<ge> real_of_int tokens_needed
         then (True, limiter1\<lparr>buckets := (buckets limiter1)(key \<mapsto>
                 b1\<lparr>tokens := tokens b1 - real_of_int tokens_needed\<rparr>)\<rparr>)
         else (False, limiter1\<lparr>buckets := (buckets limiter1)(key \<mapsto> b1)\<rparr>))"

text \<open>A sequence of \<open>allow_request\<close> calls: each with its key, cost and two clock readings.\<close>

record tb_call =
  call_key :: string
  call_tokens_needed :: int
  call_t_create :: real
  call_now :: real

fun run_calls :: "TokenBucketLimiter \<Rightarrow> tb_call list \<Rightarrow> TokenBucketLimiter" where
  "run_calls limiter [] = limiter"
| "run_calls limiter (c # cs) =
     run_calls (snd (TokenBucketLimiter_allow_request (call_t_create c) (call_now c)
                       (call_key c) (call_tokens_needed c) limiter)) cs"

text \<open>The clock readings of a sequence of calls, in the order they are made.\<close>

fun call_times :: "tb_call list \<Rightarrow> real list" where
  "call_times [] = []"
| "call_times (c # cs) = call_t_create c # call_now c # call_times cs"

text \<open>
  The invariant behind the capacity bound: at clock reading \<open>t\<close>, every stored bucket
  holds between 0 and \<open>capacity\<close> tokens and was last updated no later than \<open>t\<close>.
\<close>

definition buckets_ok :: "real \<Rightarrow> TokenBucketLimiter \<Rightarrow> bool" where
  "buckets_ok t limiter \<longleftrightarrow>
     (\<forall>key b. buckets limiter key = Some b \<longrightarrow>
        0 \<le> tokens b \<and> tokens b \<le> real_of_int (capacity limiter) \<and> last_update b \<le> t)"

section \<open>Sliding window (13\_rate\_limiting.py, class SlidingWindowLimiter)\<close>

text \<open>
  \<open>requests\<close> is a \<open>defaultdict(deque)\<close>: every key has a deque, empty until written,
  so it is a total function into lists (front of the deque first).
\<close>

record SlidingWindowLimiter =
  sw_max_requests :: int
  sw_window_seconds :: int
  requests :: "string \<Rightarrow> real list"

definition SlidingWindowLimiter_init :: "int \<Rightarrow> int \<Rightarrow> SlidingWindowLimiter" where
  "SlidingWindowLimiter_init mr ws =
     \<lparr>sw_max_requests = mr, sw_window_seconds = ws, requests = (\<lambda>_. [])\<rparr>"

text \<open>The \<open>while\<close> loop pops from the left as long as the front is older than the cutoff.\<close>

fun pop_old :: "real \<Rightarrow> real list \<Rightarrow> real list" where
  "pop_old cutoff_time [] = []"
| "pop_old cutoff_time (t # ts) = (if t < cutoff_time then pop_old cutoff_time ts else t # ts)"

definition cleanup_old_requests :: "real \<Rightarrow> string \<Rightarrow> SlidingWindowLimiter \<Rightarrow> SlidingWindowLimiter" where
  "cleanup_old_requests now key limiter =
     (let cutoff_time = now - real_of_int (sw_window_seconds limiter)
      in limiter\<lparr>requests := (requests limiter)(key := pop_old cutoff_time (requests limiter key))\<rparr>)"

text \<open>
  \<open>allow_request\<close> reads the clock for the cutoff (\<open>t_cleanup\<close>) and again for the
  timestamp it appends (\<open>t_append\<close>).
\<close>

definition SlidingWindowLimiter_allow_request ::
  "real \<Rightarrow> real \<Rightarrow> string \<Rightarrow> SlidingWindowLimiter \<Rightarrow> bool \<times> SlidingWindowLimiter" where
  "SlidingWindowLimiter_allow_request t_cleanup t_append key limiter =
     (let limiter1 = cleanup_old_requests t_cleanup key limiter
      in if int (length (requests limiter1 key)) < sw_max_requests limiter1
         then (True, limiter1\<lparr>requests := (requests limiter1)(key := requests limiter1 key @ [t_append])\<rparr>)
         else (False, limiter1))"

definition SlidingWindowLimiter_get_remaining_requests ::
  "real \<Rightarrow> string \<Rightarrow> SlidingWindowLimiter \<Rightarrow> int \<times> SlidingWindowLimiter" where
  "SlidingWindowLimiter_get_remaining_requests now key limiter =
     (let limiter1 = cleanup_old_requests now key limiter
      in (max 0 (sw_max_requests limiter1 - int (length (requests limiter1 key))), limiter1))"

text \<open>\<open>get_reset_time\<close> reads the deque as it stands; it changes nothing.\<close>

definition get_reset_time :: "real \<Rightarrow> string \<Rightarrow> SlidingWindowLimiter \<Rightarrow> real" where
  "get_reset_time now key limiter =
     (case requests limiter key of
        [] \<Rightarrow> 0
      | oldest_request # _ \<Rightarrow>
          (let reset_time = oldest_request + real_of_int (sw_window_seconds limiter)
           in max 0 (reset_time - now)))"

text \<open>
  The reset time as the specification words it: the time until the oldest surviving
  timestamp, after eviction of the older ones, leaves the window; 0 when none survives.
\<close>

definition reset_time_of_oldest_surviving :: "real \<Rightarrow> string \<Rightarrow> SlidingWindowLimiter \<Rightarrow> real" where
  "reset_time_of_oldest_surviving now key limiter =
     (case requests (cleanup_old_requests now key limiter) key of
        [] \<Rightarrow> 0
      | t # _ \<Rightarrow> max 0 (t + real_of_int (sw_window_seconds limiter) - now))"

section \<open>Fixed window (13\_rate\_limiting.py, class FixedWindowCounter)\<close>

record window =
  start :: int
  count :: int

record FixedWindowCounter =
  fw_max_requests :: int
  fw_window_seconds :: int
  windows :: "string \<rightharpoonup> window"

definition FixedWindowCounter_init :: "int \<Rightarrow> int \<Rightarrow> FixedWindowCounter" where
  "FixedWindowCounter_init mr ws =
     \<lparr>fw_max_requests = mr, fw_window_seconds = ws, windows = Map.empty\<rparr>"

text \<open>Python's \<open>int()\<close> of a float truncates towards zero.\<close>

definition py_int :: "real \<Rightarrow> int" where
  "py_int x = (if 0 \<le> x then \<lfloor>x\<rfloor> else \<lceil>x\<rceil>)"

text \<open>\<open>now / self.window_seconds\<close> raises \<open>ZeroDivisionError\<close> for a window of 0 seconds.\<close>

definition get_current_window ::
  "real \<Rightarrow> string \<Rightarrow> FixedWindowCounter \<Rightarrow> error + window \<times> FixedWindowCounter" where
  "get_current_window now key fw =
     (if fw_window_seconds fw = 0 then Inl ZeroDivisionError
      else
        (let window_start = py_int (now / real_of_int (fw_window_seconds fw)) * fw_window_seconds fw;
             fresh = \<lparr>start = window_start, count = 0\<rparr>
         in case windows fw key of
              None \<Rightarrow> Inr (fresh, fw\<lparr>windows := (windows fw)(key \<mapsto> fresh)\<rparr>)
            | Some w \<Rightarrow>
                if start w \<noteq> window_start
                then Inr (fresh, fw\<lparr>windows := (windows fw)(key \<mapsto> fresh)\<rparr>)
                else Inr (w, fw)))"

definition FixedWindowCounter_allow_request ::
  "real \<Rightarrow> string \<Rightarrow> FixedWindowCounter \<Rightarrow> error + bool \<times> FixedWindowCounter" where
  "FixedWindowCounter_allow_request now key fw =
     (case get_current_window now key fw of
        Inl e \<Rightarrow> Inl e
      | Inr (w, fw1) \<Rightarrow>
          if count w < fw_max_requests fw1
          then Inr (True, fw1\<lparr>windows := (windows fw1)(key \<mapsto> w\<lparr>count := count w + 1\<rparr>)\<rparr>)
          else Inr (False, fw1))"

section \<open>API gateway (13\_api\_gateway.py, class APIGateway)\<close>

text \<open>
  The HTTP client (\<open>httpx\<close>) is outside the repository. A request is what
  \<open>proxy_request\<close> hands to it; its outcome is a response (with any status code) or an
  exception: \<open>httpx.RequestError\<close> and \<open>httpx.TimeoutException\<close>, the two the
  \<open>except\<close> clause catches, each with its text \<open>str(e)\<close>, or any other exception.
  Headers are lists of pairs, JSON bodies are strings.
\<close>

record response =
  status_code :: int
  response_text :: string
  response_json :: "string option"
  response_headers :: "(string \<times> string) list"

datatype http_call =
    GET string "(string \<times> string) list option"
  | POST string "string option" "(string \<times> string) list option"
  | PUT string "string option" "(string \<times> string) list option"
  | DELETE string "(string \<times> string) list option"

datatype transport_outcome =
    Completed response
  | RequestError string
  | TimeoutException string
  | OtherException string

text \<open>
  What a test double of the transport and of the breaker would record: every request
  handed to the client and every \<open>record_success()\<close> and \<open>record_failure()\<close> call, in
  order, with the service name.
\<close>

datatype event =
    TransportCall http_call
  | RecordSuccess string
  | RecordFailure string

record gateway =
  registry :: ServiceRegistry
  trace :: "event list"

text \<open>
  The clock readings of one \<open>proxy_request\<close>: \<open>datetime.utcnow()\<close> in
  \<open>can_attempt\<close>, \<open>time.time()\<close> before and after the request, and
  \<open>datetime.utcnow()\<close> in \<open>record_failure\<close>.
\<close>

record proxy_clock =
  t_can_attempt :: real
  t_start :: real
  t_end :: real
  t_failure :: real

record proxy_result =
  result_status_code :: int
  result_data :: string
  result_headers :: "(string \<times> string) list"
  response_time_ms :: real

text \<open>\<open>round(x, 2)\<close>: to two decimals, ties to the even digit, computed on the reals.\<close>

definition py_round2 :: "real \<Rightarrow> real" where
  "py_round2 x =
     (let y = x * 100; f = \<lfloor>y\<rfloor>; d = y - real_of_int f;
          n = (if d < 1 / 2 then f else if 1 / 2 < d then f + 1
               else if even f then f else f + 1)
      in real_of_int n / 100)"

definition build_call ::
  "string \<Rightarrow> string \<Rightarrow> (string \<times> string) list option \<Rightarrow> string option \<Rightarrow> http_call option" where
  "build_call method full_url headers body =
     (if method = ''GET'' then Some (GET full_url headers)
      else if method = ''POST'' then Some (POST full_url body headers)
      else if method = ''PUT'' then Some (PUT full_url body headers)
      else if method = ''DELETE'' then Some (DELETE full_url headers)
      else None)"

text \<open>
  The breaker object is shared between \<open>proxy_request\<close> and the registry's dictionary:
  a change to it is a change to the dictionary entry.
\<close>

definition store_breaker :: "string \<Rightarrow> CircuitBreaker \<Rightarrow> gateway \<Rightarrow> gateway" where
  "store_breaker service_name cb gw =
     gw\<lparr>registry := (registry gw)\<lparr>circuit_breakers :=
            (circuit_breakers (registry gw))(service_name \<mapsto> cb)\<rparr>\<rparr>"

definition log_event :: "event \<Rightarrow> gateway \<Rightarrow> gateway" where
  "log_event ev gw = gw\<lparr>trace := trace gw @ [ev]\<rparr>"

text \<open>The part of \<open>proxy_request\<close> from the \<open>try\<close> on, once the request is built.\<close>

definition make_request ::
  "(http_call \<Rightarrow> transport_outcome) \<Rightarrow> proxy_clock \<Rightarrow> string \<Rightarrow> CircuitBreaker \<Rightarrow> http_call \<Rightarrow>
   gateway \<Rightarrow> (error + proxy_result) \<times> gateway" where
  "make_request client clock service_name cb call gw =
     (let gw1 = log_event (TransportCall call) gw
      in case client call of
           Completed r \<Rightarrow>
             (let elapsed = t_end clock - t_start clock;
                  gw2 = log_event (RecordSuccess service_name)
                          (store_breaker service_name (record_success cb) gw1)
              in if response_text r = []
                 then (Inr \<lparr>result_status_code = status_code r, result_data = ''{}'',
                            result_headers = response_headers r,
                            response_time_ms = py_round2 (elapsed * 1000)\<rparr>, gw2)
                 else (case response_json r of
                         None \<Rightarrow> (Inl JSONDecodeError, gw2)
                       | Some d \<Rightarrow>
                           (Inr \<lparr>result_status_code = status_code r, result_data = d,
                                 result_headers = response_headers r,
                                 response_time_ms = py_round2 (elapsed * 1000)\<rparr>, gw2)))
         | RequestError e \<Rightarrow>
             (Inl (HTTPException 503 (''Service '' @ service_name @ '' unavailable: '' @ e)),
              log_event (RecordFailure service_name)
                (store_breaker service_name (record_failure (t_failure clock) cb) gw1))
         | TimeoutException e \<Rightarrow>
             (Inl (HTTPException 503 (''Service '' @ service_name @ '' unavailable: '' @ e)),
              log_event (RecordFailure service_name)
                (store_breaker service_name (record_failure (t_failure clock) cb) gw1))
         | OtherException e \<Rightarrow> (Inl (Raised e), gw1))"

definition proxy_request ::
  "(http_call \<Rightarrow> transport_outcome) \<Rightarrow> proxy_clock \<Rightarrow> string \<Rightarrow> string \<Rightarrow> string \<Rightarrow>
   (string \<times> string) list option \<Rightarrow> string option \<Rightarrow> gateway \<Rightarrow> (error + proxy_result) \<times> gateway" where
  "proxy_request client clock service_name path method headers body gw =
     (let (cb, reg1) = get_circuit_breaker service_name (registry gw);
          (ok, cb1) = can_attempt (t_can_attempt clock) cb;
          gw1 = store_breaker service_name cb1 (gw\<lparr>registry := reg1\<rparr>)
      in if \<not> ok
         then (Inl (HTTPException 503
                 (''Service '' @ service_name @ '' is currently unavailable (circuit open)'')), gw1)
         else
           (case get_service_url service_name (registry gw1) of
              (Inl e, reg2) \<Rightarrow> (Inl e, gw1\<lparr>registry := reg2\<rparr>)
            | (Inr None, reg2) \<Rightarrow>
                (Inl (HTTPException 503 (''Service '' @ service_name @ '' not found'')),
                 gw1\<lparr>registry := reg2\<rparr>)
            | (Inr (Some service_url), reg2) \<Rightarrow>
                if service_url = []
                then (Inl (HTTPException 503 (''Service '' @ service_name @ '' not found'')),
                      gw1\<lparr>registry := reg2\<rparr>)
                else
                  (let full_url = service_url @ path
                   in case build_call method full_url headers body of
                        None \<Rightarrow> (Inl (ValueError (''Unsupported method: '' @ method)),
                                 gw1\<lparr>registry := reg2\<rparr>)
                      | Some call \<Rightarrow>
                          make_request client clock service_name cb1 call
                            (gw1\<lparr>registry := reg2\<rparr>))))"

section \<open>Properties of the circuit breaker\<close>

lemma record_failures_snoc:
  "record_failures (ts @ [t]) cb = record_failure t (record_failures ts cb)"
  by (simp add: record_failures_def)

lemma record_failures_fields:
  "failure_count (record_failures ts cb) = failure_count cb + int (length ts) \<and>
   failure_threshold (record_failures ts cb) = failure_threshold cb \<and>
   timeout_seconds (record_failures ts cb) = timeout_seconds cb"
  by (induction ts rule: rev_induct)
     (simp_all add: record_failures_snoc, simp_all add: record_failures_def record_failure_def Let_def)

lemma record_failures_open:
  assumes "ts \<noteq> []" "failure_threshold cb \<le> failure_count cb + int (length ts)"
  shows "state (record_failures ts cb) = OPEN \<and>
         last_failure_time (record_failures ts cb) = Some (last ts)"
proof -
  obtain us t where ts: "ts = us @ [t]"
    using assms(1) by (cases ts rule: rev_cases) auto
  have "failure_threshold (record_failures us cb) \<le> failure_count (record_failures us cb) + 1"
    using assms(2) by (simp add: record_failures_fields ts)
  then show ?thesis
    by (simp add: ts record_failures_snoc record_failure_def Let_def)
qed

text \<open>
  Claim C1 (full cycle). A breaker built with a positive \<open>failure_threshold\<close> \<open>ft\<close>
  starts \<open>CLOSED\<close>. After \<open>ft\<close> consecutive \<open>record_failure()\<close> calls (at the clock
  readings \<open>ts\<close>, the last one being the time of the last failure) its state is
  \<open>OPEN\<close>; \<open>can_attempt()\<close> at a time \<open>now\<close> with less than \<open>timeout_seconds\<close>
  elapsed since the last failure returns false and changes nothing; at a time with at
  least \<open>timeout_seconds\<close> elapsed it returns true and leaves the state \<open>HALF_OPEN\<close>;
  \<open>record_success()\<close> after that gives state \<open>CLOSED\<close> and \<open>failure_count = 0\<close>.
  The number of calls is \<open>failure_threshold\<close> itself, so the threshold is taken positive.
\<close>

theorem circuit_breaker_full_cycle:
  assumes "0 < ft" and "length ts = nat ft"
  shows "state (CircuitBreaker_init ft tmo) = CLOSED \<and>
         state (record_failures ts (CircuitBreaker_init ft tmo)) = OPEN \<and>
         last_failure_time (record_failures ts (CircuitBreaker_init ft tmo)) = Some (last ts) \<and>
         (\<forall>now. now - last ts < real_of_int tmo \<longrightarrow>
            can_attempt now (record_failures ts (CircuitBreaker_init ft tmo)) =
              (False, record_failures ts (CircuitBreaker_init ft tmo))) \<and>
         (\<forall>now. now - last ts \<ge> real_of_int tmo \<longrightarrow>
            can_attempt now (record_failures ts (CircuitBreaker_init ft tmo)) =
              (True, (record_failures ts (CircuitBreaker_init ft tmo))\<lparr>state := HALF_OPEN\<rparr>) \<and>
            state (record_success
                     (snd (can_attempt now (record_failures ts (CircuitBreaker_init ft tmo))))) = CLOSED \<and>
            failure_count (record_success
                     (snd (can_attempt now (record_failures ts (CircuitBreaker_init ft tmo))))) = 0)"
proof -
  define cb where "cb = record_failures ts (CircuitBreaker_init ft tmo)"
  have ne: "ts \<noteq> []" using assms by auto
  have thr: "failure_threshold (CircuitBreaker_init ft tmo) \<le>
             failure_count (CircuitBreaker_init ft tmo) + int (length ts)"
    using assms by (simp add: CircuitBreaker_init_def)
  have st: "state cb = OPEN" and lf: "last_failure_time cb = Some (last ts)"
    using record_failures_open[OF ne thr] by (simp_all add: cb_def)
  have tm: "timeout_seconds cb = tmo"
    by (simp add: cb_def record_failures_fields CircuitBreaker_init_def)
  show ?thesis
    unfolding cb_def[symmetric]
    by (simp add: st lf tm can_attempt_def record_success_def CircuitBreaker_init_def Let_def)
qed

theorem circuit_breaker_full_cycle_witness:
  "state (record_failures [1, 2, 3] (CircuitBreaker_init 3 30)) = OPEN \<and>
   fst (can_attempt 10 (record_failures [1, 2, 3] (CircuitBreaker_init 3 30))) = False \<and>
   fst (can_attempt 33 (record_failures [1, 2, 3] (CircuitBreaker_init 3 30))) = True \<and>
   state (snd (can_attempt 33 (record_failures [1, 2, 3] (CircuitBreaker_init 3 30)))) = HALF_OPEN \<and>
   state (record_success
            (snd (can_attempt 33 (record_failures [1, 2, 3] (CircuitBreaker_init 3 30))))) = CLOSED \<and>
   failure_count (record_success
            (snd (can_attempt 33 (record_failures [1, 2, 3] (CircuitBreaker_init 3 30))))) = 0"
proof -
  define cb where "cb = record_failures [1, 2, 3] (CircuitBreaker_init 3 30)"
  have h: "(0::int) < 3" "length [1, 2, 3::real] = nat 3" by simp_all
  note c = circuit_breaker_full_cycle[OF h, of 30, folded cb_def]
  from c have op: "state cb = OPEN" by simp
  from c have "(10::real) - last [1, 2, 3] < real_of_int 30 \<longrightarrow>
      can_attempt 10 cb = (False, cb)" by blast
  then have lo: "fst (can_attempt 10 cb) = False" by simp
  from c have "(33::real) - last [1, 2, 3] \<ge> real_of_int 30 \<longrightarrow>
      can_attempt 33 cb = (True, cb\<lparr>state := HALF_OPEN\<rparr>) \<and>
      state (record_success (snd (can_attempt 33 cb))) = CLOSED \<and>
      failure_count (record_success (snd (can_attempt 33 cb))) = 0" by blast
  moreover have "(33::real) - last [1, 2, 3] \<ge> real_of_int 30" by simp
  ultimately have hi: "can_attempt 33 cb = (True, cb\<lparr>state := HALF_OPEN\<rparr>)"
    and cl: "state (record_success (snd (can_attempt 33 cb))) = CLOSED"
    and fc: "failure_count (record_success (snd (can_attempt 33 cb))) = 0"
    by blast+
  have ho: "fst (can_attempt 33 cb) = True \<and> state (snd (can_attempt 33 cb)) = HALF_OPEN"
    unfolding hi by simp
  show ?thesis
    unfolding cb_def[symmetric] using op lo ho cl fc by blast
qed

text \<open>
  Claim C9 (frame of \<open>record_success\<close>). \<open>record_success()\<close> sets \<open>failure_count\<close>
  to 0 and leaves \<open>last_failure_time\<close>, \<open>failure_threshold\<close> and \<open>timeout_seconds\<close>
  as they were in every case; unless the state was \<open>HALF_OPEN\<close> nothing else changes, so
  an \<open>OPEN\<close> breaker stays \<open>OPEN\<close>; a \<open>HALF_OPEN\<close> breaker becomes \<open>CLOSED\<close>.
\<close>

theorem record_success_frame:
  "failure_count (record_success cb) = 0 \<and>
   last_failure_time (record_success cb) = last_failure_time cb \<and>
   failure_threshold (record_success cb) = failure_threshold cb \<and>
   timeout_seconds (record_success cb) = timeout_seconds cb \<and>
   (state cb \<noteq> HALF_OPEN \<longrightarrow> record_success cb = cb\<lparr>failure_count := 0\<rparr>) \<and>
   (state cb = OPEN \<longrightarrow> state (record_success cb) = OPEN) \<and>
   (state cb = HALF_OPEN \<longrightarrow> state (record_success cb) = CLOSED)"
  by (simp add: record_success_def Let_def)

theorem record_success_frame_witness:
  "record_success
     \<lparr>failure_threshold = 5, timeout_seconds = 30, failure_count = 7,
      last_failure_time = Some 100, state = OPEN\<rparr> =
     \<lparr>failure_threshold = 5, timeout_seconds = 30, failure_count = 0,
      last_failure_time = Some 100, state = OPEN\<rparr> \<and>
   state (record_success
     \<lparr>failure_threshold = 5, timeout_seconds = 30, failure_count = 2,
      last_failure_time = Some 100, state = HALF_OPEN\<rparr>) = CLOSED"
  using record_success_frame[of "\<lparr>failure_threshold = 5, timeout_seconds = 30, failure_count = 7,
      last_failure_time = Some 100, state = OPEN\<rparr>"]
    record_success_frame[of "\<lparr>failure_threshold = 5, timeout_seconds = 30, failure_count = 2,
      last_failure_time = Some 100, state = HALF_OPEN\<rparr>"]
  by simp

section \<open>Properties of the service registry\<close>

lemma registry_ok_init: "registry_ok ServiceRegistry_init"
  by (simp add: registry_ok_def ServiceRegistry_init_def)

lemma register_service_eq:
  "register_service name url reg =
     reg\<lparr>services := (services reg)(name \<mapsto>
        (let urls = (case services reg name of None \<Rightarrow> [] | Some us \<Rightarrow> us)
         in if url \<in> set urls then urls else urls @ [url]))\<rparr>"
  by (auto simp: register_service_def Let_def fun_upd_idem split: option.splits)

lemma registry_ok_register:
  assumes "registry_ok reg"
  shows "registry_ok (register_service name url reg)"
proof -
  have idx: "\<And>n i. current_index reg n = Some i \<Longrightarrow>
               \<exists>urls. services reg n = Some urls \<and> i < length urls"
    and dis: "\<And>n urls. services reg n = Some urls \<Longrightarrow> distinct urls"
    using assms by (auto simp: registry_ok_def)
  show ?thesis
    unfolding registry_ok_def register_service_eq
  proof (intro conjI allI impI)
    fix n i
    assume "current_index (reg\<lparr>services := (services reg)(name \<mapsto>
        (let urls = (case services reg name of None \<Rightarrow> [] | Some us \<Rightarrow> us)
         in if url \<in> set urls then urls else urls @ [url]))\<rparr>) n = Some i"
    then have "current_index reg n = Some i" by simp
    from idx[OF this] obtain urls where u: "services reg n = Some urls" "i < length urls" by blast
    then show "\<exists>urls. services (reg\<lparr>services := (services reg)(name \<mapsto>
        (let urls = (case services reg name of None \<Rightarrow> [] | Some us \<Rightarrow> us)
         in if url \<in> set urls then urls else urls @ [url]))\<rparr>) n = Some urls \<and> i < length urls"
      by (auto simp: Let_def)
  next
    fix n urls
    assume "services (reg\<lparr>services := (services reg)(name \<mapsto>
        (let urls = (case services reg name of None \<Rightarrow> [] | Some us \<Rightarrow> us)
         in if url \<in> set urls then urls else urls @ [url]))\<rparr>) n = Some urls"
    then show "distinct urls"
      using dis by (auto simp: Let_def split: if_splits option.splits)
  qed
qed

lemma get_service_url_result:
  assumes "services reg name = Some urls" "urls \<noteq> []"
    and "\<And>i. current_index reg name = Some i \<Longrightarrow> i < length urls"
  shows "get_service_url name reg =
           (let i = (case current_index reg name of Some j \<Rightarrow> j | None \<Rightarrow> 0)
            in (Inr (Some (urls ! i)),
                reg\<lparr>current_index := (current_index reg)(name \<mapsto> (i + 1) mod length urls)\<rparr>))"
  using assms by (auto simp: get_service_url_def Let_def split: option.splits)

lemma get_service_url_none:
  assumes "services reg name = None \<or> services reg name = Some []"
  shows "get_service_url name reg = (Inr None, reg)"
  using assms by (auto simp: get_service_url_def)

lemma registry_index_in_range:
  assumes "registry_ok reg" "services reg name = Some urls" "current_index reg name = Some i"
  shows "i < length urls"
proof -
  from assms obtain us where "services reg name = Some us" "i < length us"
    unfolding registry_ok_def by blast
  with assms(2) show ?thesis by simp
qed

lemma registry_ok_get:
  assumes "registry_ok reg"
  shows "registry_ok (snd (get_service_url name reg))"
proof (cases "services reg name = None \<or> services reg name = Some []")
  case True
  then show ?thesis using assms by (simp add: get_service_url_none)
next
  case False
  then obtain urls where u: "services reg name = Some urls" "urls \<noteq> []" by auto
  have idx: "i < length urls" if "current_index reg name = Some i" for i
    using registry_index_in_range[OF assms u(1) that] .
  have "0 < length urls" using u by simp
  then have "\<And>i. (i + 1) mod length urls < length urls" by simp
  moreover have "get_service_url name reg =
           (let i = (case current_index reg name of Some j \<Rightarrow> j | None \<Rightarrow> 0)
            in (Inr (Some (urls ! i)),
                reg\<lparr>current_index := (current_index reg)(name \<mapsto> (i + 1) mod length urls)\<rparr>))"
    using u idx by (rule get_service_url_result)
  ultimately show ?thesis
    using assms u by (auto simp: registry_ok_def Let_def)
qed

text \<open>
  Repeated selection cycles through the list: the \<open>k\<close>-th call (from 0) returns the URL
  at position \<open>(i + k) mod len\<close>, where \<open>i\<close> is the index the first call reads.
\<close>

lemma get_service_urls_cycle:
  assumes "services reg name = Some urls" "urls \<noteq> []"
    and "\<And>i. current_index reg name = Some i \<Longrightarrow> i < length urls"
  shows "fst (get_service_urls n name reg) =
           map (\<lambda>k. Inr (Some (urls ! (((case current_index reg name of Some j \<Rightarrow> j | None \<Rightarrow> 0) + k)
                                        mod length urls)))) [0..<n]"
  using assms
proof (induction n arbitrary: reg)
  case 0
  then show ?case by simp
next
  case (Suc n)
  define i where "i = (case current_index reg name of Some j \<Rightarrow> j | None \<Rightarrow> 0)"
  define reg1 where
    "reg1 = reg\<lparr>current_index := (current_index reg)(name \<mapsto> (i + 1) mod length urls)\<rparr>"
  have len: "0 < length urls" using Suc.prems(2) by simp
  have i_lt: "i < length urls"
    using Suc.prems(3) len by (auto simp: i_def split: option.splits)
  have step: "get_service_url name reg = (Inr (Some (urls ! i)), reg1)"
    using get_service_url_result[OF Suc.prems] by (simp add: Let_def i_def reg1_def)
  have s1: "services reg1 name = Some urls" using Suc.prems(1) by (simp add: reg1_def)
  have c1: "current_index reg1 name = Some ((i + 1) mod length urls)" by (simp add: reg1_def)
  have r1: "\<And>j. current_index reg1 name = Some j \<Longrightarrow> j < length urls"
    using len by (auto simp: c1)
  have ih: "fst (get_service_urls n name reg1) =
      map (\<lambda>k. Inr (Some (urls ! (((i + 1) mod length urls + k) mod length urls)))) [0..<n]"
    using Suc.IH[OF s1 Suc.prems(2) r1] by (simp add: c1)
  have shift: "(Suc i mod length urls + k) mod length urls = Suc (i + k) mod length urls" for k
    by (simp add: mod_add_left_eq)
  have upt: "[0..<Suc n] = 0 # map Suc [0..<n]"
    by (simp add: upt_conv_Cons map_Suc_upt del: upt_Suc)
  have "fst (get_service_urls (Suc n) name reg) =
          Inr (Some (urls ! i)) # fst (get_service_urls n name reg1)"
    by (simp add: step split: prod.splits)
  also have "\<dots> = map (\<lambda>k. Inr (Some (urls ! ((i + k) mod length urls)))) [0..<Suc n]"
    unfolding upt ih using i_lt by (simp add: shift comp_def)
  finally show ?case by (simp only: i_def)
qed

text \<open>
  Claim C5 (round-robin selection). \<open>get_service_url(name)\<close> returns \<open>None\<close> and changes
  nothing when \<open>name\<close> is unregistered or its URL list is empty. Otherwise, in a registry
  as the constructor, \<open>register_service\<close> and \<open>get_service_url\<close> build it
  (\<open>registry_ok\<close>), it returns \<open>services[name][index]\<close> (index 0 when none is stored
  yet) and stores \<open>(index + 1) mod len(services[name])\<close>. In particular, after registering
  exactly two URLs \<open>u1\<close>, \<open>u2\<close> for a service not registered before, the \<open>k\<close>-th of any
  number \<open>n\<close> of calls returns \<open>u1\<close> for even \<open>k\<close> and \<open>u2\<close> for odd \<open>k\<close>.
\<close>

theorem get_service_url_round_robin:
  "(services reg name = None \<or> services reg name = Some [] \<longrightarrow>
      get_service_url name reg = (Inr None, reg)) \<and>
   (\<forall>urls. registry_ok reg \<and> services reg name = Some urls \<and> urls \<noteq> [] \<longrightarrow>
      (let i = (case current_index reg name of Some j \<Rightarrow> j | None \<Rightarrow> 0)
       in i < length urls \<and>
          get_service_url name reg =
            (Inr (Some (urls ! i)),
             reg\<lparr>current_index := (current_index reg)(name \<mapsto> (i + 1) mod length urls)\<rparr>))) \<and>
   (\<forall>u1 u2 n. registry_ok reg \<and> services reg name = None \<and> u1 \<noteq> u2 \<longrightarrow>
      fst (get_service_urls n name (register_service name u2 (register_service name u1 reg))) =
        map (\<lambda>k. Inr (Some (if even k then u1 else u2))) [0..<n])"
proof (intro conjI allI impI)
  assume "services reg name = None \<or> services reg name = Some []"
  then show "get_service_url name reg = (Inr None, reg)" by (rule get_service_url_none)
next
  fix urls
  assume a: "registry_ok reg \<and> services reg name = Some urls \<and> urls \<noteq> []"
  then have idx: "\<And>i. current_index reg name = Some i \<Longrightarrow> i < length urls"
    using registry_index_in_range by blast
  from a have u: "services reg name = Some urls" "urls \<noteq> []" by simp_all
  show "let i = (case current_index reg name of Some j \<Rightarrow> j | None \<Rightarrow> 0)
       in i < length urls \<and>
          get_service_url name reg =
            (Inr (Some (urls ! i)),
             reg\<lparr>current_index := (current_index reg)(name \<mapsto> (i + 1) mod length urls)\<rparr>)"
    using get_service_url_result[OF u idx] u idx
    by (auto simp: Let_def split: option.splits)
next
  fix u1 u2 :: string and n :: nat
  assume a: "registry_ok reg \<and> services reg name = None \<and> u1 \<noteq> u2"
  define reg2 where "reg2 = register_service name u2 (register_service name u1 reg)"
  have ci: "current_index reg name = None"
  proof (cases "current_index reg name")
    case (Some i)
    with a show ?thesis unfolding registry_ok_def by (metis option.distinct(1))
  qed simp
  from a have ne: "u2 \<noteq> u1" by blast
  have s2: "services reg2 name = Some [u1, u2]"
    using a ne by (simp add: reg2_def register_service_eq Let_def)
  have c2: "current_index reg2 name = None"
    using ci by (simp add: reg2_def register_service_eq)
  have len2: "length [u1, u2] = 2" by simp
  have pt: "[u1, u2] ! (k mod 2) = (if even k then u1 else u2)" for k :: nat
  proof (cases "even k")
    case True
    then have "k mod 2 = 0" by presburger
    with True show ?thesis by simp
  next
    case False
    then have "k mod 2 = 1" by presburger
    with False show ?thesis by simp
  qed
  have "fst (get_service_urls n name reg2) =
          map (\<lambda>k. Inr (Some ([u1, u2] ! (((case current_index reg2 name of Some j \<Rightarrow> j | None \<Rightarrow> 0) + k)
                                        mod length [u1, u2])))) [0..<n]"
    by (rule get_service_urls_cycle[OF s2]) (simp_all add: c2)
  also have "\<dots> = map (\<lambda>k. Inr (Some (if even k then u1 else u2))) [0..<n]"
    unfolding c2 len2 by (simp only: option.case add_0 pt)
  finally show "fst (get_service_urls n name (register_service name u2 (register_service name u1 reg))) =
        map (\<lambda>k. Inr (Some (if even k then u1 else u2))) [0..<n]"
    by (simp add: reg2_def)
qed

theorem get_service_url_round_robin_witness:
  "get_service_url ''payments'' ServiceRegistry_init = (Inr None, ServiceRegistry_init) \<and>
   fst (get_service_url ''users'' ServiceRegistry_init) = Inr (Some ''http://localhost:8001'') \<and>
   fst (get_service_urls 5 ''test''
          (register_service ''test'' ''http://localhost:9001''
             (register_service ''test'' ''http://localhost:9000'' ServiceRegistry_init))) =
     [Inr (Some ''http://localhost:9000''), Inr (Some ''http://localhost:9001''),
      Inr (Some ''http://localhost:9000''), Inr (Some ''http://localhost:9001''),
      Inr (Some ''http://localhost:9000'')]"
proof -
  note t1 = get_service_url_round_robin[of ServiceRegistry_init "''payments''",
      THEN conjunct1, rule_format]
  note t2 = get_service_url_round_robin[of ServiceRegistry_init "''users''",
      THEN conjunct2, THEN conjunct1, rule_format, of "[''http://localhost:8001'']"]
  note t3 = get_service_url_round_robin[of ServiceRegistry_init "''test''",
      THEN conjunct2, THEN conjunct2, rule_format,
      of "''http://localhost:9000''" "''http://localhost:9001''" 5]
  have none: "services ServiceRegistry_init ''payments'' = None \<or>
              services ServiceRegistry_init ''payments'' = Some []"
    by (simp add: ServiceRegistry_init_def)
  have a: "get_service_url ''payments'' ServiceRegistry_init = (Inr None, ServiceRegistry_init)"
    using none by (rule t1)
  have s: "services ServiceRegistry_init ''users'' = Some [''http://localhost:8001'']"
    and ci: "current_index ServiceRegistry_init ''users'' = None"
    and st: "services ServiceRegistry_init ''test'' = None"
    by (simp_all add: ServiceRegistry_init_def)
  have us: "registry_ok ServiceRegistry_init \<and>
            services ServiceRegistry_init ''users'' = Some [''http://localhost:8001''] \<and>
            [''http://localhost:8001''] \<noteq> []"
    using registry_ok_init s by simp
  have b: "fst (get_service_url ''users'' ServiceRegistry_init) =
             Inr (Some ''http://localhost:8001'')"
    using t2[OF us] by (simp add: Let_def ci)
  have ts: "registry_ok ServiceRegistry_init \<and> services ServiceRegistry_init ''test'' = None \<and>
            ''http://localhost:9000'' \<noteq> ''http://localhost:9001''"
    using registry_ok_init st by simp
  have five: "[0..<5] = [0, 1, 2, 3, 4::nat]" by (simp add: upt_rec)
  have c: "fst (get_service_urls 5 ''test''
          (register_service ''test'' ''http://localhost:9001''
             (register_service ''test'' ''http://localhost:9000'' ServiceRegistry_init))) =
     [Inr (Some ''http://localhost:9000''), Inr (Some ''http://localhost:9001''),
      Inr (Some ''http://localhost:9000''), Inr (Some ''http://localhost:9001''),
      Inr (Some ''http://localhost:9000'')]"
    unfolding t3[OF ts] five by simp
  show ?thesis
    by (intro conjI a b c)
qed

lemma distinct_count_list_one:
  "distinct xs \<Longrightarrow> x \<in> set xs \<Longrightarrow> count_list xs x = 1"
  by (induction xs) auto

text \<open>
  Claim C6 (idempotent registration). Registering the same \<open>(name, url)\<close> twice gives
  the registry that registering it once gives. After registration the URL list of
  \<open>name\<close> contains \<open>url\<close>, exactly once in a registry whose lists hold no URL twice
  (\<open>registry_ok\<close>, which the constructor establishes and every operation keeps); the
  lists of the other services, the round-robin indices and the circuit breakers are
  unchanged.
\<close>

theorem register_service_idempotent:
  "register_service name url (register_service name url reg) = register_service name url reg \<and>
   (\<exists>urls. services (register_service name url reg) name = Some urls \<and> url \<in> set urls \<and>
            (registry_ok reg \<longrightarrow> count_list urls url = 1)) \<and>
   (\<forall>other. other \<noteq> name \<longrightarrow>
      services (register_service name url reg) other = services reg other) \<and>
   current_index (register_service name url reg) = current_index reg \<and>
   circuit_breakers (register_service name url reg) = circuit_breakers reg"
proof (intro conjI)
  show "register_service name url (register_service name url reg) = register_service name url reg"
    by (auto simp: register_service_eq Let_def split: option.splits)
next
  obtain urls where u: "services (register_service name url reg) name = Some urls"
    by (simp add: register_service_eq)
  have mem: "url \<in> set urls"
    using u by (auto simp: register_service_eq Let_def split: if_splits)
  have "count_list urls url = 1" if "registry_ok reg"
  proof -
    have "registry_ok (register_service name url reg)"
      using that by (rule registry_ok_register)
    then have "distinct urls" using u unfolding registry_ok_def by blast
    then show ?thesis using mem by (rule distinct_count_list_one)
  qed
  with u mem show "\<exists>urls. services (register_service name url reg) name = Some urls \<and>
      url \<in> set urls \<and> (registry_ok reg \<longrightarrow> count_list urls url = 1)"
    by blast
next
  show "\<forall>other. other \<noteq> name \<longrightarrow>
      services (register_service name url reg) other = services reg other"
    by (simp add: register_service_eq)
next
  show "current_index (register_service name url reg) = current_index reg"
    by (simp add: register_service_eq)
next
  show "circuit_breakers (register_service name url reg) = circuit_breakers reg"
    by (simp add: register_service_eq)
qed

theorem register_service_idempotent_witness:
  "services (register_service ''users'' ''http://localhost:8001'' ServiceRegistry_init) ''orders'' =
     services ServiceRegistry_init ''orders'' \<and>
   (\<exists>urls. services (register_service ''test'' ''http://localhost:9000'' ServiceRegistry_init) ''test'' =
             Some urls \<and> count_list urls ''http://localhost:9000'' = 1) \<and>
   register_service ''test'' ''http://localhost:9000''
     (register_service ''test'' ''http://localhost:9000'' ServiceRegistry_init) =
   register_service ''test'' ''http://localhost:9000'' ServiceRegistry_init"
proof -
  note t = register_service_idempotent[of "''users''" "''http://localhost:8001''" ServiceRegistry_init]
  note t' = register_service_idempotent[of "''test''" "''http://localhost:9000''" ServiceRegistry_init]
  note others = t[THEN conjunct2, THEN conjunct2, THEN conjunct1, rule_format, of "''orders''"]
  have ne: "''orders'' \<noteq> ''users''" by simp
  have o: "services (register_service ''users'' ''http://localhost:8001'' ServiceRegistry_init) ''orders'' =
      services ServiceRegistry_init ''orders''"
    using ne by (rule others)
  from t'[THEN conjunct2, THEN conjunct1] obtain urls where
    u: "services (register_service ''test'' ''http://localhost:9000'' ServiceRegistry_init) ''test'' =
          Some urls"
    and c: "registry_ok ServiceRegistry_init \<longrightarrow> count_list urls ''http://localhost:9000'' = 1"
    by (elim exE conjE)
  from c registry_ok_init have n: "count_list urls ''http://localhost:9000'' = 1"
    by (rule mp)
  from u n have e: "\<exists>urls. services (register_service ''test'' ''http://localhost:9000''
       ServiceRegistry_init) ''test'' = Some urls \<and> count_list urls ''http://localhost:9000'' = 1"
    by (intro exI conjI)
  note i = t'[THEN conjunct1]
  show ?thesis
    by (intro conjI o e i)
qed


section \<open>Properties of the fixed window counter\<close>
lemma py_int_floor: "0 \<le> x \<Longrightarrow> py_int x = \<lfloor>x\<rfloor>"
  by (simp add: py_int_def)

text \<open>
  Claim C3 (fixed window admission). With a positive window length and a clock reading
  \<open>now \<ge> 0\<close> (seconds since the epoch), the current window start is
  \<open>floor(now / window_seconds) * window_seconds\<close>. The count tested is the stored one
  when the stored window start equals it, and 0 when it differs or no window is stored
  (the counter is reset before testing). \<open>allow_request\<close> returns true and stores the
  count plus one if and only if that count is below \<open>max_requests\<close>; otherwise it
  returns false and stores the count as it is.
\<close>

theorem fixed_window_allow_request:
  assumes "0 \<le> now" and "0 < fw_window_seconds fw"
  shows "let window_start = \<lfloor>now / real_of_int (fw_window_seconds fw)\<rfloor> * fw_window_seconds fw;
             cnt = (case windows fw key of
                      Some w \<Rightarrow> if start w \<noteq> window_start then 0 else count w
                    | None \<Rightarrow> 0)
         in FixedWindowCounter_allow_request now key fw =
              Inr (cnt < fw_max_requests fw,
                   fw\<lparr>windows := (windows fw)(key \<mapsto>
                      \<lparr>start = window_start,
                       count = (if cnt < fw_max_requests fw then cnt + 1 else cnt)\<rparr>)\<rparr>)"
proof -
  have "0 \<le> now / real_of_int (fw_window_seconds fw)"
    using assms by simp
  then have fl: "py_int (now / real_of_int (fw_window_seconds fw)) =
                 \<lfloor>now / real_of_int (fw_window_seconds fw)\<rfloor>"
    by (rule py_int_floor)
  have nz: "fw_window_seconds fw \<noteq> 0" using assms(2) by simp
  show ?thesis
  proof (cases "windows fw key")
    case None
    then show ?thesis
      by (simp add: FixedWindowCounter_allow_request_def get_current_window_def Let_def fl nz)
  next
    case (Some w)
    have same: "(windows fw)(key \<mapsto> \<lparr>start = start w, count = count w\<rparr>) = windows fw"
      using Some by (auto simp: fun_eq_iff)
    have upd: "w\<lparr>count := c\<rparr> = \<lparr>start = start w, count = c\<rparr>" for c
      by (cases w) simp
    show ?thesis
      using Some same
      by (cases "start w = \<lfloor>now / real_of_int (fw_window_seconds fw)\<rfloor> * fw_window_seconds fw")
         (auto simp: FixedWindowCounter_allow_request_def get_current_window_def Let_def fl nz upd)
  qed
qed

theorem fixed_window_allow_request_witness:
  "FixedWindowCounter_allow_request 125 ''k''
     \<lparr>fw_max_requests = 5, fw_window_seconds = 60,
      windows = [''k'' \<mapsto> \<lparr>start = 60, count = 5\<rparr>]\<rparr> =
   Inr (True, \<lparr>fw_max_requests = 5, fw_window_seconds = 60,
               windows = [''k'' \<mapsto> \<lparr>start = 120, count = 1\<rparr>]\<rparr>) \<and>
   FixedWindowCounter_allow_request 100 ''k''
     \<lparr>fw_max_requests = 5, fw_window_seconds = 60,
      windows = [''k'' \<mapsto> \<lparr>start = 60, count = 5\<rparr>]\<rparr> =
   Inr (False, \<lparr>fw_max_requests = 5, fw_window_seconds = 60,
                windows = [''k'' \<mapsto> \<lparr>start = 60, count = 5\<rparr>]\<rparr>)"
proof -
  define fw where "fw = \<lparr>fw_max_requests = 5, fw_window_seconds = 60,
      windows = [''k'' \<mapsto> \<lparr>start = 60, count = 5\<rparr>]\<rparr>"
  have p: "0 < fw_window_seconds fw" by (simp add: fw_def)
  have f1: "\<lfloor>(125::real) / real_of_int (fw_window_seconds fw)\<rfloor> = 2"
    by (simp add: fw_def)
  have f2: "\<lfloor>(100::real) / real_of_int (fw_window_seconds fw)\<rfloor> = 1"
    by (simp add: fw_def)
  have a: "FixedWindowCounter_allow_request 125 ''k'' fw =
     Inr (True, \<lparr>fw_max_requests = 5, fw_window_seconds = 60,
               windows = [''k'' \<mapsto> \<lparr>start = 120, count = 1\<rparr>]\<rparr>)"
    using fixed_window_allow_request[of 125 fw "''k''", OF _ p]
    unfolding Let_def f1 by (simp add: fw_def)
  have b: "FixedWindowCounter_allow_request 100 ''k'' fw =
     Inr (False, \<lparr>fw_max_requests = 5, fw_window_seconds = 60,
                windows = [''k'' \<mapsto> \<lparr>start = 60, count = 5\<rparr>]\<rparr>)"
    using fixed_window_allow_request[of 100 fw "''k''", OF _ p]
    unfolding Let_def f2 by (simp add: fw_def)
  show ?thesis
    using a b unfolding fw_def by (rule conjI)
qed


section \<open>Properties of the token bucket\<close>

lemma allow_request_config:
  "capacity (snd (TokenBucketLimiter_allow_request t0 t1 key n limiter)) = capacity limiter \<and>
   refill_rate (snd (TokenBucketLimiter_allow_request t0 t1 key n limiter)) = refill_rate limiter"
  by (simp add: TokenBucketLimiter_allow_request_def get_bucket_def Let_def split: option.splits)

lemma refill_tokens_bounds:
  assumes "0 \<le> refill_rate limiter" "0 \<le> tokens b" "tokens b \<le> real_of_int (capacity limiter)"
    and "last_update b \<le> now"
  shows "0 \<le> tokens (refill_tokens now limiter b) \<and>
         tokens (refill_tokens now limiter b) \<le> real_of_int (capacity limiter) \<and>
         last_update (refill_tokens now limiter b) = now"
proof -
  have "0 \<le> (now - last_update b) * refill_rate limiter"
    using assms(1,4) by simp
  then have "0 \<le> tokens b + (now - last_update b) * refill_rate limiter"
    using assms(2) by simp
  moreover have "0 \<le> real_of_int (capacity limiter)" using assms(2,3) by simp
  ultimately show ?thesis
    by (simp add: refill_tokens_def Let_def)
qed

lemma allow_request_buckets_ok:
  assumes ok: "buckets_ok t limiter"
    and cap: "0 \<le> capacity limiter" and rate: "0 \<le> refill_rate limiter"
    and need: "0 \<le> n" and t0: "t \<le> t0" and t1: "t0 \<le> t1"
  shows "buckets_ok t1 (snd (TokenBucketLimiter_allow_request t0 t1 key n limiter))"
proof -
  obtain b limiter1 where gb: "get_bucket t0 key limiter = (b, limiter1)"
    by (cases "get_bucket t0 key limiter")
  have cfg: "capacity limiter1 = capacity limiter" "refill_rate limiter1 = refill_rate limiter"
    using gb by (auto simp: get_bucket_def Let_def split: option.splits)
  have b_ok: "0 \<le> tokens b \<and> tokens b \<le> real_of_int (capacity limiter) \<and> last_update b \<le> t1"
  proof (cases "buckets limiter key")
    case None
    then have "b = \<lparr>tokens = real_of_int (capacity limiter), last_update = t0\<rparr>"
      using gb by (simp add: get_bucket_def Let_def)
    then show ?thesis using cap t1 by simp
  next
    case (Some b')
    then have "b = b'" using gb by (simp add: get_bucket_def)
    then show ?thesis using ok Some t0 t1 unfolding buckets_ok_def by force
  qed
  have others: "0 \<le> tokens c \<and> tokens c \<le> real_of_int (capacity limiter) \<and> last_update c \<le> t1"
    if "buckets limiter1 k = Some c" "k \<noteq> key" for k c
  proof -
    have "buckets limiter k = Some c"
      using that gb by (auto simp: get_bucket_def Let_def split: option.splits)
    then show ?thesis using ok t0 t1 unfolding buckets_ok_def by force
  qed
  define b1 where "b1 = refill_tokens t1 limiter1 b"
  have r: "0 \<le> tokens b1 \<and> tokens b1 \<le> real_of_int (capacity limiter) \<and> last_update b1 = t1"
    using refill_tokens_bounds[of limiter1 b t1] b_ok rate cfg by (simp add: b1_def)
  show ?thesis
  proof (cases "tokens b1 \<ge> real_of_int n")
    case True
    have res: "snd (TokenBucketLimiter_allow_request t0 t1 key n limiter) =
            limiter1\<lparr>buckets := (buckets limiter1)(key \<mapsto> b1\<lparr>tokens := tokens b1 - real_of_int n\<rparr>)\<rparr>"
      using True by (simp add: TokenBucketLimiter_allow_request_def gb b1_def Let_def)
    have "0 \<le> tokens b1 - real_of_int n \<and> tokens b1 - real_of_int n \<le> real_of_int (capacity limiter)"
      using True r need by simp
    then show ?thesis
      unfolding res buckets_ok_def using r others cfg by (auto split: if_splits)
  next
    case False
    have res: "snd (TokenBucketLimiter_allow_request t0 t1 key n limiter) =
            limiter1\<lparr>buckets := (buckets limiter1)(key \<mapsto> b1)\<rparr>"
      using False by (simp add: TokenBucketLimiter_allow_request_def gb b1_def Let_def)
    show ?thesis
      unfolding res buckets_ok_def using r others cfg by (auto split: if_splits)
  qed
qed

lemma run_calls_config:
  "capacity (run_calls limiter calls) = capacity limiter \<and>
   refill_rate (run_calls limiter calls) = refill_rate limiter"
  by (induction calls arbitrary: limiter) (simp_all add: allow_request_config)

lemma run_calls_buckets_ok:
  assumes "buckets_ok t limiter" "0 \<le> capacity limiter" "0 \<le> refill_rate limiter"
    and "\<forall>c\<in>set calls. 0 \<le> call_tokens_needed c" "sorted (t # call_times calls)"
  shows "\<exists>t'. buckets_ok t' (run_calls limiter calls)"
  using assms
proof (induction calls arbitrary: limiter t)
  case Nil
  then show ?case by auto
next
  case (Cons c cs)
  define limiter1 where
    "limiter1 = snd (TokenBucketLimiter_allow_request (call_t_create c) (call_now c)
                       (call_key c) (call_tokens_needed c) limiter)"
  have le: "t \<le> call_t_create c" "call_t_create c \<le> call_now c"
    and srt: "sorted (call_now c # call_times cs)"
    using Cons.prems(5) by auto
  have need: "0 \<le> call_tokens_needed c" using Cons.prems(4) by simp
  have ok1: "buckets_ok (call_now c) limiter1"
    unfolding limiter1_def
    by (rule allow_request_buckets_ok[OF Cons.prems(1,2,3) need le])
  have cfg: "0 \<le> capacity limiter1" "0 \<le> refill_rate limiter1"
    using Cons.prems(2,3) by (simp_all add: limiter1_def allow_request_config)
  have rest: "\<forall>c\<in>set cs. 0 \<le> call_tokens_needed c" using Cons.prems(4) by simp
  have "\<exists>t'. buckets_ok t' (run_calls limiter1 cs)"
    by (rule Cons.IH[OF ok1 cfg rest srt])
  then show ?case by (simp add: limiter1_def)
qed

lemma call_times_append: "call_times (xs @ ys) = call_times xs @ call_times ys"
  by (induction xs) simp_all

text \<open>
  Claim C2 (capacity bound). For a limiter created with \<open>capacity \<ge> 0\<close> and
  \<open>refill_rate \<ge> 0\<close>, and any finite sequence of \<open>allow_request\<close> calls (on any keys)
  with \<open>tokens_needed \<ge> 0\<close> whose clock readings never decrease: after every call, that
  is after the first \<open>n\<close> calls for every \<open>n\<close>, each stored bucket holds
  \<open>0 \<le> tokens \<le> capacity\<close>.
\<close>

theorem token_bucket_capacity_bound:
  assumes "0 \<le> cap" and "0 \<le> rate"
    and "\<forall>c\<in>set calls. 0 \<le> call_tokens_needed c"
    and "sorted (call_times calls)"
    and "buckets (run_calls (TokenBucketLimiter_init cap rate) (take n calls)) key = Some b"
  shows "0 \<le> tokens b \<and> tokens b \<le> real_of_int cap"
proof -
  define cs where "cs = take n calls"
  have "sorted (call_times (cs @ drop n calls))"
    using assms(4) by (simp add: cs_def)
  then have srt: "sorted (call_times cs)"
    by (simp add: call_times_append sorted_append)
  have need: "\<forall>c\<in>set cs. 0 \<le> call_tokens_needed c"
    using assms(3) by (auto simp: cs_def dest: in_set_takeD)
  define t where "t = (case cs of [] \<Rightarrow> 0 | c # _ \<Rightarrow> call_t_create c)"
  have srt': "sorted (t # call_times cs)"
    using srt by (cases cs) (auto simp: t_def)
  have init: "buckets_ok t (TokenBucketLimiter_init cap rate)"
    by (simp add: buckets_ok_def TokenBucketLimiter_init_def)
  have cfg: "0 \<le> capacity (TokenBucketLimiter_init cap rate)"
    "0 \<le> refill_rate (TokenBucketLimiter_init cap rate)"
    using assms(1,2) by (simp_all add: TokenBucketLimiter_init_def)
  obtain t' where ok: "buckets_ok t' (run_calls (TokenBucketLimiter_init cap rate) cs)"
    using run_calls_buckets_ok[OF init cfg need srt'] by blast
  have "capacity (run_calls (TokenBucketLimiter_init cap rate) cs) = cap"
    by (simp add: run_calls_config TokenBucketLimiter_init_def)
  with ok assms(5) show ?thesis
    unfolding buckets_ok_def cs_def by force
qed

theorem token_bucket_capacity_bound_witness:
  "buckets (run_calls (TokenBucketLimiter_init 5 10)
      (take 2 [\<lparr>call_key = ''k'', call_tokens_needed = 1, call_t_create = 0, call_now = 0\<rparr>,
               \<lparr>call_key = ''k'', call_tokens_needed = 1, call_t_create = 0, call_now = 0\<rparr>,
               \<lparr>call_key = ''k'', call_tokens_needed = 7, call_t_create = 1, call_now = 1\<rparr>])) ''k'' =
     Some \<lparr>tokens = 3, last_update = 0\<rparr> \<and>
   (0::real) \<le> tokens \<lparr>tokens = 3, last_update = 0\<rparr> \<and>
   tokens \<lparr>tokens = 3, last_update = 0\<rparr> \<le> real_of_int 5"
proof -
  define calls where "calls =
     [\<lparr>call_key = ''k'', call_tokens_needed = 1, call_t_create = 0, call_now = 0\<rparr>,
      \<lparr>call_key = ''k'', call_tokens_needed = 1, call_t_create = 0, call_now = 0\<rparr>,
      \<lparr>call_key = ''k'', call_tokens_needed = 7, call_t_create = 1, call_now = 1\<rparr>]"
  have h3: "\<forall>c\<in>set calls. 0 \<le> call_tokens_needed c" by (simp add: calls_def)
  have h4: "sorted (call_times calls)" by (simp add: calls_def)
  have h5: "buckets (run_calls (TokenBucketLimiter_init 5 10) (take 2 calls)) ''k'' =
              Some \<lparr>tokens = 3, last_update = 0\<rparr>"
    by (simp add: calls_def TokenBucketLimiter_init_def TokenBucketLimiter_allow_request_def
          get_bucket_def refill_tokens_def Let_def)
  have "0 \<le> tokens \<lparr>tokens = 3, last_update = 0\<rparr> \<and>
        tokens \<lparr>tokens = 3, last_update = 0\<rparr> \<le> real_of_int 5"
    by (rule token_bucket_capacity_bound[OF _ _ h3 h4 h5]) simp_all
  with h5 show ?thesis unfolding calls_def by (rule conjI)
qed

text \<open>
  Claim C10 (a fresh key starts full). For a key with no bucket yet, \<open>_get_bucket\<close>
  creates one holding \<open>capacity\<close> tokens. The first \<open>allow_request(key, tokens_needed)\<close>
  with \<open>0 < tokens_needed \<le> capacity\<close> is not granted for every fresh key as the claim
  has it: \<open>allow_request\<close> reads the clock once when it creates the bucket and once more
  when it refills, and when the second reading is earlier than the first (the system
  clock was set back in between) the refill takes tokens away. With capacity 10, refill
  rate 2 and the clock one second back, the bucket holds 8 tokens and a request for 10
  is denied.
\<close>

theorem token_bucket_fresh_key_clock_counterexample:
  "buckets (TokenBucketLimiter_init 10 2) ''client'' = None \<and>
   (0::int) < 10 \<and> 10 \<le> capacity (TokenBucketLimiter_init 10 2) \<and>
   tokens (fst (get_bucket 100 ''client'' (TokenBucketLimiter_init 10 2))) = 10 \<and>
   fst (TokenBucketLimiter_allow_request 100 99 ''client'' 10 (TokenBucketLimiter_init 10 2)) = False \<and>
   buckets (snd (TokenBucketLimiter_allow_request 100 99 ''client'' 10 (TokenBucketLimiter_init 10 2)))
     ''client'' = Some \<lparr>tokens = 8, last_update = 99\<rparr>"
  by (simp add: TokenBucketLimiter_init_def TokenBucketLimiter_allow_request_def
        get_bucket_def refill_tokens_def Let_def)

text \<open>
  Claim C10, amended. For a key with no bucket yet, \<open>_get_bucket\<close> creates one holding
  \<open>capacity\<close> tokens; when \<open>refill_rate \<ge> 0\<close>, the clock reading of the refill is not
  earlier than the one taken at creation, and \<open>capacity \<le> 2^53\<close> (the range in which the
  integer capacity is a double and the sum the refill forms is not below it), the first
  \<open>allow_request(key, tokens_needed)\<close> with \<open>0 < tokens_needed \<le> capacity\<close> returns
  true.
\<close>

theorem token_bucket_fresh_key_burst:
  assumes "buckets limiter key = None" and "0 \<le> refill_rate limiter" and "t_create \<le> now"
    and "0 < tokens_needed" and "tokens_needed \<le> capacity limiter"
    and "capacity limiter \<le> 2 ^ 53"
  shows "fst (get_bucket t_create key limiter) =
           \<lparr>tokens = real_of_int (capacity limiter), last_update = t_create\<rparr> \<and>
         fst (TokenBucketLimiter_allow_request t_create now key tokens_needed limiter) = True"
proof -
  have gb: "get_bucket t_create key limiter =
      (\<lparr>tokens = real_of_int (capacity limiter), last_update = t_create\<rparr>,
       limiter\<lparr>buckets := (buckets limiter)(key \<mapsto>
          \<lparr>tokens = real_of_int (capacity limiter), last_update = t_create\<rparr>)\<rparr>)"
    using assms(1) by (simp add: get_bucket_def Let_def)
  have nn: "0 \<le> (now - t_create) * refill_rate limiter"
    using assms(2,3) by simp
  have le: "real_of_int tokens_needed \<le> real_of_int (capacity limiter)"
    using assms(5) by simp
  have "tokens (refill_tokens now
          (limiter\<lparr>buckets := (buckets limiter)(key \<mapsto>
             \<lparr>tokens = real_of_int (capacity limiter), last_update = t_create\<rparr>)\<rparr>)
          \<lparr>tokens = real_of_int (capacity limiter), last_update = t_create\<rparr>) =
        real_of_int (capacity limiter)"
    using nn by (simp add: refill_tokens_def Let_def)
  then show ?thesis
    using le by (simp add: TokenBucketLimiter_allow_request_def gb Let_def)
qed

theorem token_bucket_fresh_key_burst_witness:
  "fst (get_bucket 100 ''client'' (TokenBucketLimiter_init 10 2)) =
     \<lparr>tokens = 10, last_update = 100\<rparr> \<and>
   fst (TokenBucketLimiter_allow_request 100 101 ''client'' 10 (TokenBucketLimiter_init 10 2)) = True"
  using token_bucket_fresh_key_burst[of "TokenBucketLimiter_init 10 2" "''client''" 100 101 10]
  by (simp add: TokenBucketLimiter_init_def)

section \<open>Properties of the sliding window limiter\<close>

text \<open>
  When the front of the stored deque is still inside the window, for instance right after
  an eviction at the same clock reading, \<open>get_reset_time\<close> is the time until the oldest
  surviving timestamp leaves the window.
\<close>

lemma get_reset_time_front_in_window:
  assumes "requests limiter key = t # ts"
    and "\<not> t < now - real_of_int (sw_window_seconds limiter)"
  shows "get_reset_time now key limiter = reset_time_of_oldest_surviving now key limiter"
  using assms
  by (simp add: get_reset_time_def reset_time_of_oldest_surviving_def cleanup_old_requests_def Let_def)

lemma get_reset_time_empty:
  assumes "requests limiter key = []"
  shows "get_reset_time now key limiter = 0 \<and> reset_time_of_oldest_surviving now key limiter = 0"
  using assms
  by (simp add: get_reset_time_def reset_time_of_oldest_surviving_def cleanup_old_requests_def Let_def)

text \<open>
  Claim C4 (reset time of the sliding window). \<open>get_reset_time\<close> does not evict:
  unlike \<open>allow_request\<close> and \<open>get_remaining_requests\<close> it never calls
  \<open>_cleanup_old_requests\<close>, and it reads the front of the deque as the last eviction left
  it. With \<open>max_requests = 5\<close>, \<open>window_seconds = 60\<close> and requests admitted at times 0
  and 50, the deque is \<open>[0, 50]\<close>; at time 70 the timestamp 0 is outside the window and
  the oldest surviving one is 50, which leaves the window in 40 seconds, but
  \<open>get_reset_time\<close> returns \<open>max(0, 0 + 60 - 70) = 0\<close>.
\<close>

theorem get_reset_time_stale_front:
  "requests (snd (SlidingWindowLimiter_allow_request 50 50 ''k''
      (snd (SlidingWindowLimiter_allow_request 0 0 ''k'' (SlidingWindowLimiter_init 5 60))))) ''k'' =
     [0, 50] \<and>
   requests (cleanup_old_requests 70 ''k'' (snd (SlidingWindowLimiter_allow_request 50 50 ''k''
      (snd (SlidingWindowLimiter_allow_request 0 0 ''k'' (SlidingWindowLimiter_init 5 60)))))) ''k'' =
     [50] \<and>
   get_reset_time 70 ''k'' (snd (SlidingWindowLimiter_allow_request 50 50 ''k''
      (snd (SlidingWindowLimiter_allow_request 0 0 ''k'' (SlidingWindowLimiter_init 5 60))))) = 0 \<and>
   reset_time_of_oldest_surviving 70 ''k'' (snd (SlidingWindowLimiter_allow_request 50 50 ''k''
      (snd (SlidingWindowLimiter_allow_request 0 0 ''k'' (SlidingWindowLimiter_init 5 60))))) = 40"
proof -
  define s where "s = snd (SlidingWindowLimiter_allow_request 50 50 ''k''
      (snd (SlidingWindowLimiter_allow_request 0 0 ''k'' (SlidingWindowLimiter_init 5 60))))"
  have r: "requests s ''k'' = [0, 50]" and w: "sw_window_seconds s = 60"
    by (simp_all add: s_def SlidingWindowLimiter_allow_request_def SlidingWindowLimiter_init_def
          cleanup_old_requests_def Let_def)
  have c: "requests (cleanup_old_requests 70 ''k'' s) ''k'' = [50]"
    by (simp add: cleanup_old_requests_def Let_def r w)
  have g: "get_reset_time 70 ''k'' s = 0"
    by (simp add: get_reset_time_def Let_def r w)
  have e: "reset_time_of_oldest_surviving 70 ''k'' s = 40"
    by (simp add: reset_time_of_oldest_surviving_def c w)
  show ?thesis
    using r c g e unfolding s_def by (intro conjI)
qed


section \<open>Properties of the gateway proxy\<close>

lemma can_attempt_false_unchanged:
  assumes "fst (can_attempt now cb) = False"
  shows "can_attempt now cb = (False, cb) \<and> state cb = OPEN"
  using assms
  by (cases "state cb") (auto simp: can_attempt_def Let_def split: option.splits if_splits)

lemma can_attempt_init: "fst (can_attempt now (CircuitBreaker_init ft tmo)) = True"
  by (simp add: can_attempt_def CircuitBreaker_init_def)

lemma store_breaker_same:
  assumes "circuit_breakers (registry gw) service_name = Some cb"
  shows "store_breaker service_name cb gw = gw"
proof -
  have "(circuit_breakers (registry gw))(service_name \<mapsto> cb) = circuit_breakers (registry gw)"
    using assms by (rule map_upd_triv)
  then show ?thesis by (simp add: store_breaker_def)
qed

text \<open>
  Claim C7 (proxy failure isolation). When \<open>can_attempt()\<close> of the service's breaker
  returns false, \<open>proxy_request\<close> fails with status 503 and the detail
  "Service <name> is currently unavailable (circuit open)", and the gateway is exactly as
  before: nothing was handed to the transport, no URL was selected (the round-robin index
  is unchanged) and the breaker is untouched.
\<close>

theorem proxy_request_circuit_open:
  assumes "fst (can_attempt (t_can_attempt clock)
                  (fst (get_circuit_breaker service_name (registry gw)))) = False"
  shows "proxy_request client clock service_name path method headers body gw =
           (Inl (HTTPException 503
              (''Service '' @ service_name @ '' is currently unavailable (circuit open)'')), gw) \<and>
         trace (snd (proxy_request client clock service_name path method headers body gw)) = trace gw \<and>
         current_index (registry (snd (proxy_request client clock service_name path method headers body gw)))
           = current_index (registry gw)"
proof -
  obtain cb where cb: "circuit_breakers (registry gw) service_name = Some cb"
  proof (cases "circuit_breakers (registry gw) service_name")
    case None
    then have "fst (get_circuit_breaker service_name (registry gw)) =
               CircuitBreaker_init FAILURE_THRESHOLD TIMEOUT_SECONDS"
      by (simp add: get_circuit_breaker_def Let_def)
    with assms show ?thesis by (simp add: can_attempt_init)
  next
    case (Some c)
    then show ?thesis by (rule that)
  qed
  have g: "get_circuit_breaker service_name (registry gw) = (cb, registry gw)"
    using cb by (simp add: get_circuit_breaker_def)
  have ca: "can_attempt (t_can_attempt clock) cb = (False, cb)"
    using assms can_attempt_false_unchanged[of "t_can_attempt clock" cb] by (simp add: g)
  have same: "store_breaker service_name cb gw = gw"
    using cb by (rule store_breaker_same)
  have eq: "proxy_request client clock service_name path method headers body gw =
           (Inl (HTTPException 503
              (''Service '' @ service_name @ '' is currently unavailable (circuit open)'')), gw)"
    by (simp add: proxy_request_def g ca same)
  show ?thesis
    unfolding eq by simp
qed

theorem proxy_request_circuit_open_witness:
  "proxy_request (\<lambda>call. OtherException ''never called'')
     \<lparr>t_can_attempt = 110, t_start = 110, t_end = 111, t_failure = 111\<rparr>
     ''orders'' ''/orders'' ''GET'' None None
     \<lparr>registry = ServiceRegistry_init\<lparr>circuit_breakers :=
         [''orders'' \<mapsto> \<lparr>failure_threshold = 5, timeout_seconds = 30, failure_count = 5,
                               last_failure_time = Some 100, state = OPEN\<rparr>]\<rparr>,
      trace = []\<rparr> =
   (Inl (HTTPException 503 ''Service orders is currently unavailable (circuit open)''),
    \<lparr>registry = ServiceRegistry_init\<lparr>circuit_breakers :=
         [''orders'' \<mapsto> \<lparr>failure_threshold = 5, timeout_seconds = 30, failure_count = 5,
                               last_failure_time = Some 100, state = OPEN\<rparr>]\<rparr>,
      trace = []\<rparr>)"
proof -
  define gw where "gw = \<lparr>registry = ServiceRegistry_init\<lparr>circuit_breakers :=
         [''orders'' \<mapsto> \<lparr>failure_threshold = 5, timeout_seconds = 30, failure_count = 5,
                               last_failure_time = Some 100, state = OPEN\<rparr>]\<rparr>,
      trace = []\<rparr>"
  define clock where "clock = \<lparr>t_can_attempt = 110, t_start = 110, t_end = 111, t_failure = 111\<rparr>"
  have h: "fst (can_attempt (t_can_attempt clock)
                  (fst (get_circuit_breaker ''orders'' (registry gw)))) = False"
    by (simp add: gw_def clock_def get_circuit_breaker_def can_attempt_def Let_def)
  have "proxy_request (\<lambda>call. OtherException ''never called'') clock
          ''orders'' ''/orders'' ''GET'' None None gw =
        (Inl (HTTPException 503 (''Service '' @ ''orders'' @ '' is currently unavailable (circuit open)'')), gw)"
    using proxy_request_circuit_open[OF h] by (rule conjunct1)
  then show ?thesis
    unfolding gw_def clock_def by simp
qed








end
